theory Spec2Isabelle
  imports Main "HOL-Library.Word"
begin

unbundle bit_operations_syntax

section \<open>Platform data: bytes, JavaScript strings, the text codecs\<close>

text \<open>
  A \<open>Uint8Array\<close> or \<open>ArrayBuffer\<close> is a list of bytes. A JavaScript string is a list of UTF-16 code
  units: \<open>length\<close>, \<open>slice\<close> and \<open>indexOf\<close> of the source all count code units.
\<close>

type_synonym byte = "8 word"
type_synonym unit16 = "16 word"
type_synonym jsstring = "unit16 list"

definition js :: "string \<Rightarrow> jsstring" where
  \<comment> \<open>an ASCII literal of the source as a JavaScript string\<close>
  "js s = map of_char s"

definition CRLF :: "jsstring" where
  "CRLF = [0x0D, 0x0A]"

definition CRLFCRLF :: "jsstring" where
  \<comment> \<open>the literal \<open>'\r\n\r\n'\<close>\<close>
  "CRLFCRLF = [0x0D, 0x0A, 0x0D, 0x0A]"

subsection \<open>\<open>new TextDecoder().decode(bytes)\<close>\<close>

text \<open>
  The UTF-8 decoder of the Encoding standard, in replacement mode: \<open>cp\<close> is the code
  point under construction, \<open>needed\<close> the number of continuation bytes still expected,
  \<open>lo\<close> and \<open>hi\<close> the bounds of the next continuation byte. A byte outside the bounds
  ends the sequence with U+FFFD and is read again as a first byte; input that ends inside
  a sequence gives U+FFFD.
\<close>

function utf8_decode :: "nat \<Rightarrow> nat \<Rightarrow> nat \<Rightarrow> nat \<Rightarrow> byte list \<Rightarrow> nat list" where
  "utf8_decode cp needed lo hi [] = (if needed = 0 then [] else [0xFFFD])"
| "utf8_decode cp needed lo hi (b # bs) =
     (if needed = 0 then
        (if b \<le> 0x7F then unat b # utf8_decode 0 0 0x80 0xBF bs
         else if 0xC2 \<le> b \<and> b \<le> 0xDF then
           utf8_decode (unat (b AND 0x1F)) 1 0x80 0xBF bs
         else if 0xE0 \<le> b \<and> b \<le> 0xEF then
           utf8_decode (unat (b AND 0x0F)) 2
             (if b = 0xE0 then 0xA0 else 0x80) (if b = 0xED then 0x9F else 0xBF) bs
         else if 0xF0 \<le> b \<and> b \<le> 0xF4 then
           utf8_decode (unat (b AND 0x07)) 3
             (if b = 0xF0 then 0x90 else 0x80) (if b = 0xF4 then 0x8F else 0xBF) bs
         else 0xFFFD # utf8_decode 0 0 0x80 0xBF bs)
      else if \<not> (lo \<le> unat b \<and> unat b \<le> hi) then
        0xFFFD # utf8_decode 0 0 0x80 0xBF (b # bs)
      else if needed = 1 then
        (cp * 64 + unat (b AND 0x3F)) # utf8_decode 0 0 0x80 0xBF bs
      else utf8_decode (cp * 64 + unat (b AND 0x3F)) (needed - 1) 0x80 0xBF bs)"
  by pat_completeness auto
termination
  by (relation "measure (\<lambda>(cp, needed, lo, hi, bs). 2 * length bs + (if needed = 0 then 0 else 1))")
     auto

definition utf16_units :: "nat \<Rightarrow> jsstring" where
  \<comment> \<open>a code point as one code unit, or as a surrogate pair above the basic plane\<close>
  "utf16_units cp =
     (if cp < 0x10000 then [of_nat cp]
      else [of_nat (0xD800 + (cp - 0x10000) div 0x400),
            of_nat (0xDC00 + (cp - 0x10000) mod 0x400)])"

definition strip_bom :: "byte list \<Rightarrow> byte list" where
  \<comment> \<open>\<open>ignoreBOM\<close> is false by default: a leading byte order mark is dropped\<close>
  "strip_bom bs = (if take 3 bs = [0xEF, 0xBB, 0xBF] then drop 3 bs else bs)"

definition TextDecoder_decode :: "byte list \<Rightarrow> jsstring" where
  \<comment> \<open>a fresh decoder for each call, no \<open>stream\<close> option: nothing is carried over\<close>
  "TextDecoder_decode bs = concat (map utf16_units (utf8_decode 0 0 0x80 0xBF (strip_bom bs)))"

subsection \<open>\<open>new TextEncoder().encode(str)\<close>\<close>

definition is_lead :: "unit16 \<Rightarrow> bool" where
  "is_lead c \<longleftrightarrow> 0xD800 \<le> c \<and> c \<le> 0xDBFF"

definition is_trail :: "unit16 \<Rightarrow> bool" where
  "is_trail c \<longleftrightarrow> 0xDC00 \<le> c \<and> c \<le> 0xDFFF"

fun scalar_values :: "jsstring \<Rightarrow> nat list" where
  \<comment> \<open>surrogate pairs are joined, a lone surrogate becomes U+FFFD\<close>
  "scalar_values [] = []"
| "scalar_values [c] = (if is_lead c \<or> is_trail c then [0xFFFD] else [unat c])"
| "scalar_values (c # d # ds) =
     (if is_lead c then
        (if is_trail d then
           (0x10000 + (unat c - 0xD800) * 0x400 + (unat d - 0xDC00)) # scalar_values ds
         else 0xFFFD # scalar_values (d # ds))
      else if is_trail c then 0xFFFD # scalar_values (d # ds)
      else unat c # scalar_values (d # ds))"

definition utf8_bytes :: "nat \<Rightarrow> byte list" where
  "utf8_bytes cp =
     (if cp < 0x80 then [of_nat cp]
      else if cp < 0x800 then [of_nat (0xC0 + cp div 0x40), of_nat (0x80 + cp mod 0x40)]
      else if cp < 0x10000 then
        [of_nat (0xE0 + cp div 0x1000), of_nat (0x80 + cp div 0x40 mod 0x40),
         of_nat (0x80 + cp mod 0x40)]
      else
        [of_nat (0xF0 + cp div 0x40000), of_nat (0x80 + cp div 0x1000 mod 0x40),
         of_nat (0x80 + cp div 0x40 mod 0x40), of_nat (0x80 + cp mod 0x40)])"

definition TextEncoder_encode :: "jsstring \<Rightarrow> byte list" where
  "TextEncoder_encode s = concat (map utf8_bytes (scalar_values s))"

subsection \<open>String primitives\<close>

fun starts_with :: "'a list \<Rightarrow> 'a list \<Rightarrow> bool" where
  "starts_with [] s = True"
| "starts_with (p # ps) [] = False"
| "starts_with (p # ps) (c # cs) = (p = c \<and> starts_with ps cs)"

fun indexOf :: "'a list \<Rightarrow> 'a list \<Rightarrow> nat option" where
  \<comment> \<open>\<open>s.indexOf(pat)\<close>: the first position where \<open>pat\<close> occurs, \<open>None\<close> for -1\<close>
  "indexOf pat [] = (if pat = [] then Some 0 else None)"
| "indexOf pat (c # cs) =
     (if starts_with pat (c # cs) then Some 0 else map_option Suc (indexOf pat cs))"

definition digit_unit :: "nat \<Rightarrow> unit16" where
  "digit_unit k = of_nat (0x30 + k)"

fun number_digits :: "nat \<Rightarrow> jsstring" where
  \<comment> \<open>a non-negative integer in a template literal: its decimal digits\<close>
  "number_digits n =
     (if n < 10 then [digit_unit n]
      else number_digits (n div 10) @ [digit_unit (n mod 10)])"

declare number_digits.simps [simp del]

definition Number :: "jsstring \<Rightarrow> nat" where
  \<comment> \<open>\<open>Number(s)\<close> on a string of decimal digits. The double is this integer up to
     \<open>2^53\<close>; beyond that both are larger than the length of any string, the only
     thing \<open>onData\<close> compares the value with\<close>
  "Number ds = foldl (\<lambda>a d. 10 * a + (unat d - 0x30)) 0 ds"

subsection \<open>The three regular expressions\<close>

text \<open>
  The patterns have the flag \<open>i\<close> only (no \<open>g\<close>, no \<open>u\<close>): a search finds the leftmost
  match, and a pattern letter matches the code unit of the same ASCII letter in either
  case and no other code unit. \<open>\s*\<close> and \<open>\d+\<close> are greedy; what follows \<open>\s*\<close> in
  each pattern is not white space, and \<open>\d+\<close> ends each pattern it is in, so the greedy
  match is the only one at a given start.
\<close>

definition Canonicalize :: "unit16 \<Rightarrow> unit16" where
  "Canonicalize c = (if 0x61 \<le> c \<and> c \<le> 0x7A then c - 0x20 else c)"

definition is_space :: "unit16 \<Rightarrow> bool" where
  \<comment> \<open>the class \<open>\s\<close>: white space and line terminators\<close>
  "is_space c \<longleftrightarrow>
     c \<in> {0x09, 0x0A, 0x0B, 0x0C, 0x0D, 0x20, 0xA0, 0x1680, 0x2028, 0x2029, 0x202F,
          0x205F, 0x3000, 0xFEFF} \<or> (0x2000 \<le> c \<and> c \<le> 0x200A)"

definition is_digit :: "unit16 \<Rightarrow> bool" where
  \<comment> \<open>the class \<open>\d\<close>\<close>
  "is_digit c \<longleftrightarrow> 0x30 \<le> c \<and> c \<le> 0x39"

fun match_literal :: "jsstring \<Rightarrow> jsstring \<Rightarrow> jsstring option" where
  \<comment> \<open>the literal at the start of the input, ignoring case: what follows it\<close>
  "match_literal [] s = Some s"
| "match_literal (p # ps) [] = None"
| "match_literal (p # ps) (c # cs) =
     (if Canonicalize p = Canonicalize c then match_literal ps cs else None)"

definition ContentLength_here :: "jsstring \<Rightarrow> (jsstring \<times> jsstring) option" where
  \<comment> \<open>\<open>/Content-Length:\s*(\d+)/i\<close> at the start of the input: group 1 and the rest\<close>
  "ContentLength_here s =
     (case match_literal (js ''Content-Length:'') s of
        None \<Rightarrow> None
      | Some r \<Rightarrow>
          (let r' = dropWhile is_space r in
           if takeWhile is_digit r' = [] then None
           else Some (takeWhile is_digit r', dropWhile is_digit r')))"

fun ContentLength_search :: "jsstring \<Rightarrow> (jsstring \<times> jsstring \<times> jsstring) option" where
  \<comment> \<open>the leftmost match: the text before it, group 1, the text after it\<close>
  "ContentLength_search [] =
     (case ContentLength_here [] of None \<Rightarrow> None | Some (ds, r) \<Rightarrow> Some ([], ds, r))"
| "ContentLength_search (c # cs) =
     (case ContentLength_here (c # cs) of
        Some (ds, r) \<Rightarrow> Some ([], ds, r)
      | None \<Rightarrow> map_option (\<lambda>(p, ds, r). (c # p, ds, r)) (ContentLength_search cs))"

definition ConnectionClose_here :: "jsstring \<Rightarrow> bool" where
  \<comment> \<open>\<open>/Connection:\s*close/i\<close> at the start of the input\<close>
  "ConnectionClose_here s =
     (case match_literal (js ''Connection:'') s of
        None \<Rightarrow> False
      | Some r \<Rightarrow> match_literal (js ''close'') (dropWhile is_space r) \<noteq> None)"

fun ConnectionClose_test :: "jsstring \<Rightarrow> bool" where
  \<comment> \<open>\<open>/Connection:\s*close/i.test(s)\<close>: a match anywhere in \<open>s\<close>\<close>
  "ConnectionClose_test [] = ConnectionClose_here []"
| "ConnectionClose_test (c # cs) = (ConnectionClose_here (c # cs) \<or> ConnectionClose_test cs)"

section \<open>The module's functions\<close>

definition splitHttp :: "jsstring \<Rightarrow> (jsstring \<times> jsstring) option" where
  "splitHttp buf =
     (case indexOf CRLFCRLF buf of
        None \<Rightarrow> None
      | Some i \<Rightarrow> Some (take i buf, drop (i + 4) buf))"

definition safeContentLength :: "jsstring \<Rightarrow> jsstring \<Rightarrow> jsstring" where
  "safeContentLength headers body =
     (let len = length (TextEncoder_encode body) in
      case ContentLength_search headers of
        Some (before, ds, after) \<Rightarrow>
          before @ js ''Content-Length: '' @ number_digits len @ after
      | None \<Rightarrow> headers @ CRLF @ js ''Content-Length: '' @ number_digits len)"


subsection \<open>The connection\<close>

datatype role = User | Assistant

record ChatMessage =
  role :: role
  content :: jsstring

text \<open>
  The fields \<open>buffer\<close>, \<open>sink\<close>, \<open>history\<close> and \<open>closing\<close> are those of the class.
  The socket \<open>sock\<close> is seen through what the connection does to it: \<open>sock_written\<close>
  are the bytes \<open>sock.write\<close> has accepted so far and \<open>sock_end_calls\<close> counts the calls
  of \<open>sock.end()\<close>. \<open>outstanding\<close> holds, for each call of
  \<open>openai.responses.create\<close> that has not settled yet, the contents of \<open>history\<close> at
  the moment the call was made (the call is given the array as its \<open>input\<close>), and
  \<open>requests\<close> lists the arguments \<open>handleRequest\<close> has been called with.
  The sink is an \<open>ArrayBufferSink\<close> in stream mode: \<open>write\<close> appends, \<open>flush\<close>
  returns what is held and empties it. The sink is started without \<open>asUint8Array\<close>, so
  what \<open>flush\<close> returns is an \<open>ArrayBuffer\<close>; the cast \<open>as Uint8Array\<close> of the source
  exists at compile time only. An \<open>ArrayBuffer\<close> has a \<open>byteLength\<close> and no
  \<open>length\<close>. Logging and the \<open>userAgent\<close> given to the instructions touch no field
  of the connection and are left out.
\<close>

record Connection =
  buffer :: jsstring
  sink :: "byte list"
  history :: "ChatMessage list"
  closing :: bool
  sock_written :: "byte list"
  sock_end_calls :: nat
  outstanding :: "ChatMessage list list"
  requests :: "byte list list"

definition new_Connection :: Connection where
  "new_Connection =
     \<lparr>buffer = [], sink = [], history = [], closing = False, sock_written = [],
      sock_end_calls = 0, outstanding = [], requests = []\<rparr>"

definition subarray :: "int \<Rightarrow> byte list \<Rightarrow> byte list" where
  \<comment> \<open>\<open>subarray(n)\<close> of a typed array: a negative start counts from the end, both are
     clamped\<close>
  "subarray n chunk =
     (if n < 0 then drop (nat (int (length chunk) + n)) chunk else drop (nat n) chunk)"

definition chunk_length :: "byte list \<Rightarrow> nat option" where
  \<comment> \<open>\<open>chunk.length\<close> of the \<open>ArrayBuffer\<close> that \<open>sink.flush()\<close> returned:
     \<open>undefined\<close>, here \<open>None\<close>\<close>
  "chunk_length chunk = None"

definition less_than :: "int \<Rightarrow> nat option \<Rightarrow> bool" where
  \<comment> \<open>\<open>n < x\<close>: a comparison of a number with \<open>undefined\<close> is false\<close>
  "less_than n x = (case x of None \<Rightarrow> False | Some len \<Rightarrow> n < int len)"

definition flush :: "int \<Rightarrow> Connection \<Rightarrow> Connection" where
  \<comment> \<open>\<open>n\<close> is what \<open>sock.write(chunk)\<close> returns: the socket took the first \<open>n\<close> bytes;
     \<open>length chunk\<close> is \<open>chunk.byteLength\<close>\<close>
  "flush n c =
     (let chunk = sink c; c1 = c\<lparr>sink := []\<rparr> in
      if length chunk = 0 then
        (if closing c1 then c1\<lparr>sock_end_calls := sock_end_calls c1 + 1\<rparr> else c1)
      else
        (let c2 = c1\<lparr>sock_written := sock_written c1 @ take (nat n) chunk\<rparr> in
         if less_than n (chunk_length chunk) then c2\<lparr>sink := sink c2 @ subarray n chunk\<rparr>
         else c2))"

definition onDrain :: "int \<Rightarrow> Connection \<Rightarrow> Connection" where
  "onDrain n c = flush n c"

text \<open>
  \<open>handleRequest\<close> is asynchronous. Its part before the \<open>await\<close> runs inside the caller:
  it decodes the request, appends it to the history and issues the responder call.
\<close>

definition handleRequest_call :: "byte list \<Rightarrow> Connection \<Rightarrow> Connection" where
  "handleRequest_call reqBytes c =
     (let raw = TextDecoder_decode reqBytes;
          c1 = c\<lparr>requests := requests c @ [reqBytes]\<rparr>;
          c2 = c1\<lparr>history := history c1 @ [\<lparr>role = User, content = raw\<rparr>]\<rparr>
      in c2\<lparr>outstanding := outstanding c2 @ [history c2]\<rparr>)"

text \<open>What the responder call settles with: its text, or a thrown value.\<close>

datatype thrown = Error_instance jsstring | Other_value

datatype outcome = Resolved jsstring | Rejected thrown

definition post_process :: "jsstring \<Rightarrow> jsstring" where
  \<comment> \<open>the rewriting of \<open>out\<close> at the start of the \<open>try\<close> block's continuation\<close>
  "post_process out =
     (case indexOf CRLFCRLF out of
        None \<Rightarrow> out
      | Some i \<Rightarrow>
          (let headers = take i out; body = drop (i + 4) out in
           safeContentLength headers body @ CRLFCRLF @ body))"

definition error_message :: "thrown \<Rightarrow> jsstring" where
  "error_message e = (case e of Error_instance m \<Rightarrow> m | Other_value \<Rightarrow> js ''LLM proxy error'')"

definition error_response :: "jsstring \<Rightarrow> jsstring" where
  \<comment> \<open>the template literal of the \<open>catch\<close> block\<close>
  "error_response msg =
     js ''HTTP/1.1 500 Internal Server Error'' @ CRLF @
     js ''Content-Type: text/plain; charset=utf-8'' @ CRLF @
     js ''Content-Length: '' @ number_digits (length msg) @ CRLF @
     js ''Connection: close'' @ CRLFCRLF @ msg"

definition error_headers :: "jsstring \<Rightarrow> jsstring" where
  \<comment> \<open>the part of \<open>error_response\<close> before its delimiter\<close>
  "error_headers msg =
     js ''HTTP/1.1 500 Internal Server Error'' @ CRLF @
     js ''Content-Type: text/plain; charset=utf-8'' @ CRLF @
     js ''Content-Length: '' @ number_digits (length msg) @ CRLF @
     js ''Connection: close''"

definition handleRequest_settle :: "outcome \<Rightarrow> int \<Rightarrow> Connection \<Rightarrow> Connection" where
  \<comment> \<open>the part after the \<open>await\<close>; \<open>n\<close> is the result of the write inside \<open>flush\<close>\<close>
  "handleRequest_settle oc n c =
     (case oc of
        Resolved output_text \<Rightarrow>
          (let out = post_process output_text;
               c1 = (if ConnectionClose_test out then c\<lparr>closing := True\<rparr> else c);
               c2 = c1\<lparr>history := history c1 @ [\<lparr>role = Assistant, content = out\<rparr>]\<rparr>;
               c3 = c2\<lparr>sink := sink c2 @ TextEncoder_encode out\<rparr>
           in flush n c3)
      | Rejected e \<Rightarrow>
          (let msg = error_message e;
               body = error_response msg;
               c1 = c\<lparr>closing := True\<rparr>;
               c2 = c1\<lparr>sink := sink c1 @ TextEncoder_encode body\<rparr>
           in flush n c2))"

definition bodyLen_of :: "jsstring \<Rightarrow> nat" where
  \<comment> \<open>\<open>clMatch ? Number(clMatch[1]) : 0\<close>\<close>
  "bodyLen_of hdrs =
     (case ContentLength_search hdrs of None \<Rightarrow> 0 | Some (before, ds, after) \<Rightarrow> Number ds)"

function onData_loop :: "Connection \<Rightarrow> Connection" where
  "onData_loop c =
     (case splitHttp (buffer c) of
        None \<Rightarrow> c
      | Some (hdrs, rest) \<Rightarrow>
          (let bodyLen = bodyLen_of hdrs in
           if length rest < bodyLen then c
           else
             (let reqText = take (length hdrs + 4 + bodyLen) (buffer c);
                  c' = c\<lparr>buffer := drop (length hdrs + 4 + bodyLen) (buffer c)\<rparr>
              in onData_loop (handleRequest_call (TextEncoder_encode reqText) c'))))"
  by pat_completeness auto
termination
proof (relation "measure (\<lambda>c. length (buffer c))")
  show "wf (measure (\<lambda>c. length (buffer c)))" by simp
next
  fix c :: Connection and x2 hdrs rest bodyLen reqText c'
  assume split: "splitHttp (buffer c) = Some x2" "(hdrs, rest) = x2"
    and c': "c' = c\<lparr>buffer := drop (length hdrs + 4 + bodyLen) (buffer c)\<rparr>"
  have sw: "starts_with p t \<Longrightarrow> length p \<le> length t" for p t :: jsstring
    by (induction p t rule: starts_with.induct) auto
  have bound: "indexOf CRLFCRLF s = Some i \<Longrightarrow> i + 4 \<le> length s" for s i
  proof (induction s arbitrary: i)
    case Nil
    then show ?case by (simp add: CRLFCRLF_def)
  next
    case (Cons a s)
    then show ?case
      by (auto simp: CRLFCRLF_def split: if_splits dest: sw)
  qed
  from split have "buffer c \<noteq> []"
    by (auto simp: splitHttp_def split: option.splits dest: bound)
  then have "length (drop (length hdrs + 4 + bodyLen) (buffer c)) < length (buffer c)"
    by simp
  then show "(handleRequest_call (TextEncoder_encode reqText) c', c)
      \<in> measure (\<lambda>c. length (buffer c))"
    by (simp add: c' handleRequest_call_def Let_def)
qed

declare onData_loop.simps [simp del]

definition onData :: "byte list \<Rightarrow> Connection \<Rightarrow> Connection" where
  "onData chunk c = onData_loop (c\<lparr>buffer := buffer c @ TextDecoder_decode chunk\<rparr>)"

subsection \<open>The events of one connection\<close>

text \<open>
  The listener routes \<open>data\<close> and \<open>drain\<close> to the connection, and the event loop resumes
  a suspended \<open>handleRequest\<close> when its responder call settles; \<open>Settled k\<close> settles the
  \<open>k\<close>-th outstanding call. An event that names no outstanding call cannot happen and
  leaves the connection as it is.
\<close>

datatype event = Data "byte list" | Drain int | Settled nat outcome int

fun step :: "Connection \<Rightarrow> event \<Rightarrow> Connection" where
  "step c (Data chunk) = onData chunk c"
| "step c (Drain n) = onDrain n c"
| "step c (Settled k oc n) =
     (if k < length (outstanding c) then
        handleRequest_settle oc n
          (c\<lparr>outstanding := take k (outstanding c) @ drop (Suc k) (outstanding c)\<rparr>)
      else c)"

definition run :: "event list \<Rightarrow> Connection" where
  "run evs = foldl step new_Connection evs"

subsection \<open>What an event hands to the sink\<close>

fun enqueued :: "Connection \<Rightarrow> event \<Rightarrow> byte list" where
  \<comment> \<open>the argument of the event's \<open>sink.write\<close>, empty when it makes none\<close>
  "enqueued c (Settled k oc n) =
     (if k < length (outstanding c) then
        (case oc of
           Resolved output_text \<Rightarrow> TextEncoder_encode (post_process output_text)
         | Rejected e \<Rightarrow> TextEncoder_encode (error_response (error_message e)))
      else [])"
| "enqueued c (Data chunk) = []"
| "enqueued c (Drain n) = []"

subsection \<open>Sample inputs\<close>

definition ascii :: "string \<Rightarrow> byte list" where
  \<comment> \<open>ASCII text as the bytes on the wire\<close>
  "ascii s = map of_char s"

definition GET_ping :: "byte list" where
  "GET_ping =
     ascii ''GET /ping HTTP/1.1'' @ [0x0D, 0x0A] @ ascii ''Host: x'' @ [0x0D, 0x0A, 0x0D, 0x0A]"

definition OK_body_mentions_close :: jsstring where
  \<comment> \<open>a responder text whose body, and only its body, reads \<open>Connection: close\<close>\<close>
  "OK_body_mentions_close = js ''HTTP/1.1 200 OK'' @ CRLFCRLF @ js ''Connection: close''"

definition OK_two_lengths :: jsstring where
  "OK_two_lengths =
     js ''HTTP/1.1 200 OK'' @ CRLF @ js ''Content-Length: 999'' @ CRLF @
     js ''Content-Length: 999'' @ CRLFCRLF @ js ''pong''"

definition POST_cafe :: "byte list" where
  "POST_cafe =
     ascii ''POST /echo HTTP/1.1'' @ [0x0D, 0x0A] @ ascii ''Content-Length: 2'' @
     [0x0D, 0x0A, 0x0D, 0x0A] @ [0xC3, 0xA9]"

definition GET_name_head :: "byte list" where
  "GET_name_head = ascii ''GET /ping HTTP/1.1'' @ [0x0D, 0x0A] @ ascii ''X-Name: '' @ [0xC3]"

definition GET_name_tail :: "byte list" where
  "GET_name_tail = [0xA9, 0x0D, 0x0A, 0x0D, 0x0A]"

definition user_turn :: "byte list \<Rightarrow> ChatMessage" where
  \<comment> \<open>the history entry \<open>handleRequest\<close> pushes for a request\<close>
  "user_turn reqBytes = \<lparr>role = User, content = TextDecoder_decode reqBytes\<rparr>"

definition issued_inputs :: "ChatMessage list \<Rightarrow> byte list list \<Rightarrow> ChatMessage list list" where
  \<comment> \<open>the \<open>input\<close> of the call for each of the requests \<open>ms\<close>, handled in this order
     from the history \<open>hist\<close>: the history up to and including that request\<close>
  "issued_inputs hist ms = map (\<lambda>k. hist @ map user_turn (take (Suc k) ms)) [0..<length ms]"

definition GET_a :: "byte list" where
  "GET_a = ascii ''GET /a HTTP/1.1'' @ [0x0D, 0x0A, 0x0D, 0x0A]"

definition GET_b :: "byte list" where
  "GET_b = ascii ''GET /b HTTP/1.1'' @ [0x0D, 0x0A, 0x0D, 0x0A]"

definition OK_a :: jsstring where
  "OK_a = js ''HTTP/1.1 200 OK'' @ CRLFCRLF @ js ''a''"

definition OK_b :: jsstring where
  "OK_b = js ''HTTP/1.1 200 OK'' @ CRLFCRLF @ js ''b''"

section \<open>Numbers in text\<close>

lemma unat_digit_unit: "k < 10 \<Longrightarrow> unat (digit_unit k) = 0x30 + k"
  unfolding digit_unit_def by (simp add: unat_of_nat del: of_nat_add)

lemma is_digit_digit_unit: "k < 10 \<Longrightarrow> is_digit (digit_unit k)"
  unfolding is_digit_def word_le_nat_alt using unat_digit_unit [of k] by simp

lemma number_digits_digits: "\<forall>d \<in> set (number_digits n). is_digit d"
proof (induction n rule: number_digits.induct)
  case (1 n)
  show ?case
  proof (cases "n < 10")
    case True
    then show ?thesis
      by (subst number_digits.simps) (simp add: is_digit_digit_unit)
  next
    case False
    with 1 show ?thesis
      by (subst number_digits.simps) (simp add: is_digit_digit_unit)
  qed
qed

lemma number_digits_nonempty: "number_digits n \<noteq> []"
  by (subst number_digits.simps) simp

lemma Number_snoc: "Number (ds @ [d]) = 10 * Number ds + (unat d - 0x30)"
  by (simp add: Number_def)

lemma Number_number_digits: "Number (number_digits n) = n"
proof (induction n rule: number_digits.induct)
  case (1 n)
  show ?case
  proof (cases "n < 10")
    case True
    then show ?thesis
      by (subst number_digits.simps) (simp add: Number_def unat_digit_unit)
  next
    case False
    with 1 show ?thesis
      by (subst number_digits.simps) (simp add: Number_snoc unat_digit_unit)
  qed
qed

section \<open>Length of the UTF-8 encoding\<close>

lemma length_utf8_bytes: "length (utf8_bytes cp) =
  (if cp < 0x80 then 1 else if cp < 0x800 then 2 else if cp < 0x10000 then 3 else 4)"
  by (simp add: utf8_bytes_def)

lemma ascii_not_surrogate: "c < 0x80 \<Longrightarrow> \<not> is_lead c \<and> \<not> is_trail c"
  by (simp add: is_lead_def is_trail_def word_le_nat_alt word_less_nat_alt)

lemma scalar_values_plain:
  "\<not> is_lead c \<Longrightarrow> \<not> is_trail c \<Longrightarrow> scalar_values (c # s) = unat c # scalar_values s"
  by (cases s) simp_all

lemma length_le_encode: "length s \<le> length (TextEncoder_encode s)"
proof (induction s rule: scalar_values.induct)
  case 1
  show ?case by (simp add: TextEncoder_encode_def)
next
  case (2 c)
  show ?case by (simp add: TextEncoder_encode_def length_utf8_bytes)
next
  case (3 c d ds)
  then show ?case
    by (cases "is_lead c"; cases "is_trail c"; cases "is_trail d";
        simp add: TextEncoder_encode_def length_utf8_bytes)
qed

lemma encode_ascii_Cons:
  "c < 0x80 \<Longrightarrow> TextEncoder_encode (c # s) = ucast c # TextEncoder_encode s"
  using ascii_not_surrogate [of c]
  by (simp add: TextEncoder_encode_def scalar_values_plain utf8_bytes_def word_less_nat_alt)

lemma encode_ascii_append:
  "\<forall>c \<in> set a. c < 0x80 \<Longrightarrow> TextEncoder_encode (a @ b) = map ucast a @ TextEncoder_encode b"
  by (induction a) (simp_all add: encode_ascii_Cons)

lemma encode_ascii:
  "\<forall>c \<in> set a. c < 0x80 \<Longrightarrow> TextEncoder_encode a = map ucast a"
  using encode_ascii_append [of a "[]"] by (simp add: TextEncoder_encode_def)

lemma length_less_encode:
  "\<exists>c \<in> set s. 0x80 \<le> c \<Longrightarrow> length s < length (TextEncoder_encode s)"
proof (induction s rule: scalar_values.induct)
  case 1
  then show ?case by simp
next
  case (2 c)
  then show ?case
    by (auto simp: TextEncoder_encode_def length_utf8_bytes word_le_nat_alt)
next
  case (3 c d ds)
  have le1: "length ds \<le> length (concat (map utf8_bytes (scalar_values ds)))"
    using length_le_encode [of ds] by (simp add: TextEncoder_encode_def)
  have le2: "Suc (length ds) \<le> length (concat (map utf8_bytes (scalar_values (d # ds))))"
    using length_le_encode [of "d # ds"] by (simp add: TextEncoder_encode_def)
  show ?case
  proof (cases "is_lead c")
    case True
    then show ?thesis using le1 le2
      by (simp add: TextEncoder_encode_def length_utf8_bytes)
  next
    case lead: False
    show ?thesis
    proof (cases "is_trail c")
      case True
      then show ?thesis using lead le2
        by (simp add: TextEncoder_encode_def length_utf8_bytes)
    next
      case trail: False
      show ?thesis
      proof (cases "0x80 \<le> c")
        case True
        then have "2 \<le> length (utf8_bytes (unat c))"
          by (simp add: length_utf8_bytes word_le_nat_alt)
        then show ?thesis using lead trail le2
          by (simp add: TextEncoder_encode_def)
      next
        case False
        with "3.prems" have ex: "\<exists>c\<in>set (d # ds). 0x80 \<le> c" by auto
        have "length (d # ds) < length (TextEncoder_encode (d # ds))"
          using "3.IH"(4) [OF lead trail ex] .
        then show ?thesis using lead trail
          by (simp add: TextEncoder_encode_def length_utf8_bytes)
      qed
    qed
  qed
qed

section \<open>Reading a response the way the module reads a message\<close>

lemma digit_not_space: "is_digit d \<Longrightarrow> \<not> is_space d"
  by (auto simp: is_digit_def is_space_def word_le_nat_alt)

lemma digit_not_CR: "is_digit d \<Longrightarrow> d \<noteq> 0x0D"
  by (auto simp: is_digit_def)

lemma indexOf_skip:
  "0x0D \<notin> set p \<Longrightarrow>
   indexOf CRLFCRLF (p @ s) = map_option (\<lambda>i. length p + i) (indexOf CRLFCRLF s)"
proof (induction p)
  case Nil
  show ?case by (simp add: option.map_ident)
next
  case (Cons c p)
  then have "\<not> starts_with CRLFCRLF (c # p @ s)" by (auto simp: CRLFCRLF_def)
  with Cons show ?case by (simp add: option.map_comp comp_def)
qed

lemma indexOf_skip_digits:
  "indexOf CRLFCRLF (number_digits n @ s) =
   map_option (\<lambda>i. length (number_digits n) + i) (indexOf CRLFCRLF s)"
  using number_digits_digits [of n] by (intro indexOf_skip) (auto dest: digit_not_CR)

lemma dropWhile_space_digits:
  "dropWhile is_space (number_digits n @ r) = number_digits n @ r"
proof (cases "number_digits n")
  case Nil
  then show ?thesis using number_digits_nonempty [of n] by simp
next
  case (Cons d ds)
  then have "is_digit d" using number_digits_digits [of n] by simp
  then show ?thesis using Cons by (simp add: digit_not_space)
qed

lemma ContentLength_here_written:
  assumes "takeWhile is_digit r = []"
  shows "ContentLength_here (js ''Content-Length: '' @ number_digits n @ r)
         = Some (number_digits n, r)"
proof -
  have m: "match_literal (js ''Content-Length:'') (js ''Content-Length: '' @ number_digits n @ r)
           = Some (0x20 # number_digits n @ r)"
    by (simp add: js_def Canonicalize_def)
  have tw: "takeWhile is_digit (number_digits n @ r) = number_digits n"
    using number_digits_digits [of n] assms by (simp add: takeWhile_append2)
  have dw: "dropWhile is_digit (number_digits n @ r) = r"
    using number_digits_digits [of n] assms
    by (simp add: dropWhile_append2) (metis takeWhile_dropWhile_id append_Nil)
  have sp: "dropWhile is_space (0x20 # number_digits n @ r) = number_digits n @ r"
    by (simp add: is_space_def dropWhile_space_digits)
  show ?thesis
    unfolding ContentLength_here_def m
    by (simp add: sp tw dw number_digits_nonempty del: dropWhile.simps)
qed

lemma error_response_split: "error_response msg = error_headers msg @ CRLFCRLF @ msg"
  by (simp add: error_response_def error_headers_def)

lemma indexOf_skip_line:
  assumes "p \<noteq> []" "0x0D \<notin> set p"
  shows "indexOf CRLFCRLF (CRLF @ p @ s) =
         map_option (\<lambda>i. 2 + length p + i) (indexOf CRLFCRLF s)"
proof -
  obtain x xs where p: "p = x # xs" using assms(1) by (cases p) auto
  with assms(2) have "x \<noteq> 0x0D" by auto
  then have "indexOf CRLFCRLF (CRLF @ p @ s) = map_option (\<lambda>i. 2 + i) (indexOf CRLFCRLF (p @ s))"
    by (simp add: p CRLF_def CRLFCRLF_def option.map_comp comp_def)
  then show ?thesis
    by (simp add: indexOf_skip [OF assms(2)] option.map_comp comp_def)
qed

lemma indexOf_here: "indexOf CRLFCRLF (CRLFCRLF @ s) = Some 0"
  by (simp add: CRLFCRLF_def)

lemma CR_free_digits: "0x0D \<notin> set (number_digits n)"
  using number_digits_digits [of n] by (auto dest: digit_not_CR)

lemma indexOf_error_response:
  "indexOf CRLFCRLF (error_response msg) = Some (length (error_headers msg))"
proof -
  let ?P1 = "js ''HTTP/1.1 500 Internal Server Error''"
  let ?P2 = "js ''Content-Type: text/plain; charset=utf-8''"
  let ?P3 = "js ''Content-Length: '' @ number_digits (length msg)"
  let ?P4 = "js ''Connection: close''"
  have c1: "0x0D \<notin> set ?P1" by (simp add: js_def)
  have c2: "?P2 \<noteq> []" "0x0D \<notin> set ?P2" by (simp_all add: js_def)
  have c3: "?P3 \<noteq> []" "0x0D \<notin> set ?P3" by (simp_all add: js_def CR_free_digits)
  have c4: "?P4 \<noteq> []" "0x0D \<notin> set ?P4" by (simp_all add: js_def)
  have "error_response msg = ?P1 @ (CRLF @ ?P2 @ (CRLF @ ?P3 @ (CRLF @ ?P4 @ (CRLFCRLF @ msg))))"
    by (simp add: error_response_def)
  then have "indexOf CRLFCRLF (error_response msg) =
      Some (length ?P1 + (2 + length ?P2 + (2 + length ?P3 + (2 + length ?P4 + 0))))"
    by (simp only: indexOf_skip [OF c1] indexOf_skip_line [OF c2] indexOf_skip_line [OF c3]
        indexOf_skip_line [OF c4] indexOf_here option.map)
  also have "length ?P1 + (2 + length ?P2 + (2 + length ?P3 + (2 + length ?P4 + 0)))
      = length (error_headers msg)"
    by (simp add: error_headers_def CRLF_def)
  finally show ?thesis .
qed

lemma splitHttp_error_response:
  "splitHttp (error_response msg) = Some (error_headers msg, msg)"
  unfolding splitHttp_def indexOf_error_response
  by (simp add: error_response_split CRLFCRLF_def)

lemma ContentLength_here_None:
  "match_literal (js ''Content-Length:'') s = None \<Longrightarrow> ContentLength_here s = None"
  by (simp add: ContentLength_here_def)

lemmas ContentLength_here_None_eval =
  ContentLength_here_None [unfolded js_def, simplified]

lemma ContentLength_error_headers:
  "ContentLength_search (error_headers msg) =
     Some (js ''HTTP/1.1 500 Internal Server Error'' @ CRLF @
           js ''Content-Type: text/plain; charset=utf-8'' @ CRLF,
           number_digits (length msg), CRLF @ js ''Connection: close'')"
proof -
  have tw: "takeWhile is_digit (CRLF @ js ''Connection: close'') = []"
    by (simp add: CRLF_def is_digit_def)
  note h = ContentLength_here_written [OF tw, of "length msg", unfolded js_def CRLF_def, simplified]
  show ?thesis
    by (simp add: error_headers_def js_def CRLF_def ContentLength_here_None_eval
        Canonicalize_def h)
qed

lemma bodyLen_of_error_headers: "bodyLen_of (error_headers msg) = length msg"
  by (simp add: bodyLen_of_def ContentLength_error_headers Number_number_digits)

lemma digit_ascii: "is_digit d \<Longrightarrow> d < 0x80"
  by (simp add: is_digit_def word_le_nat_alt word_less_nat_alt)

lemma error_headers_ascii: "\<forall>u \<in> set (error_headers msg @ CRLFCRLF). u < 0x80"
  using number_digits_digits [of "length msg"]
  by (auto simp: error_headers_def js_def CRLF_def CRLFCRLF_def dest: digit_ascii)

lemma handleRequest_settle_Resolved:
  "handleRequest_settle (Resolved t) n c =
     flush n (c\<lparr>closing := closing c \<or> ConnectionClose_test (post_process t),
                history := history c @ [\<lparr>role = Assistant, content = post_process t\<rparr>],
                sink := sink c @ TextEncoder_encode (post_process t)\<rparr>)"
  by (simp add: handleRequest_settle_def Let_def)

lemma handleRequest_settle_Rejected:
  "handleRequest_settle (Rejected e) n c =
     flush n (c\<lparr>closing := True,
                sink := sink c @ TextEncoder_encode (error_response (error_message e))\<rparr>)"
  by (simp add: handleRequest_settle_def Let_def)

lemma closing_flush [simp]: "closing (flush n c) = closing c"
  by (simp add: flush_def Let_def less_than_def chunk_length_def)

section \<open>The sink and the socket\<close>

lemma flush_empty:
  "sink c = [] \<Longrightarrow>
   flush n c = (if closing c then c\<lparr>sock_end_calls := sock_end_calls c + 1\<rparr> else c)"
  by (simp add: flush_def Let_def)

lemma sink_flush [simp]: "sink (flush n c) = []"
  by (simp add: flush_def Let_def less_than_def chunk_length_def)

lemma sock_written_flush:
  "sock_written (flush n c) = sock_written c @ take (nat n) (sink c)"
  by (simp add: flush_def Let_def less_than_def chunk_length_def)

lemma sock_end_calls_flush:
  "sock_end_calls (flush n c) =
     (if sink c = [] \<and> closing c then sock_end_calls c + 1 else sock_end_calls c)"
  by (simp add: flush_def Let_def less_than_def chunk_length_def)

lemma flush_end:
  "sock_end_calls (flush n c) \<noteq> sock_end_calls c \<Longrightarrow>
   sink c = [] \<and> closing c \<and> sink (flush n c) = [] \<and> sock_written (flush n c) = sock_written c"
  by (auto simp: sock_end_calls_flush sock_written_flush split: if_splits)

lemma flush_others [simp]:
  "buffer (flush n c) = buffer c" "history (flush n c) = history c"
  "outstanding (flush n c) = outstanding c" "requests (flush n c) = requests c"
  by (simp_all add: flush_def Let_def less_than_def chunk_length_def)

lemma handleRequest_call_fields [simp]:
  "sink (handleRequest_call m c) = sink c"
  "closing (handleRequest_call m c) = closing c"
  "sock_written (handleRequest_call m c) = sock_written c"
  "sock_end_calls (handleRequest_call m c) = sock_end_calls c"
  by (simp_all add: handleRequest_call_def Let_def)

lemma onData_loop_socket:
  "sink (onData_loop c) = sink c \<and> closing (onData_loop c) = closing c
   \<and> sock_written (onData_loop c) = sock_written c
   \<and> sock_end_calls (onData_loop c) = sock_end_calls c"
proof (induction c rule: onData_loop.induct)
  case (1 c)
  show ?case
  proof (cases "splitHttp (buffer c)")
    case None
    then show ?thesis by (subst (1 2 3 4) onData_loop.simps) simp
  next
    case (Some hr)
    obtain hdrs rest where hr: "hr = (hdrs, rest)" by (cases hr)
    show ?thesis
    proof (cases "length rest < bodyLen_of hdrs")
      case True
      then show ?thesis using Some hr by (subst (1 2 3 4) onData_loop.simps) simp
    next
      case False
      from "1.IH" [OF Some hr [symmetric] refl False refl refl] False Some hr
      show ?thesis
        by (subst (1 2 3 4) onData_loop.simps) (simp add: Let_def)
    qed
  qed
qed

lemma onData_socket:
  "sink (onData chunk c) = sink c \<and> closing (onData chunk c) = closing c
   \<and> sock_written (onData chunk c) = sock_written c
   \<and> sock_end_calls (onData chunk c) = sock_end_calls c"
  using onData_loop_socket [of "c\<lparr>buffer := buffer c @ TextDecoder_decode chunk\<rparr>"]
  by (simp add: onData_def)

lemma step_end:
  assumes "sock_end_calls (step c ev) \<noteq> sock_end_calls c"
  shows "sink c = [] \<and> enqueued c ev = [] \<and> closing (step c ev)
         \<and> sink (step c ev) = [] \<and> sock_written (step c ev) = sock_written c"
proof (cases ev)
  case (Data chunk)
  with assms show ?thesis by (simp add: onData_socket)
next
  case (Drain n)
  with assms flush_end [of n c] show ?thesis by (simp add: onDrain_def)
next
  case (Settled k oc n)
  show ?thesis
  proof (cases "k < length (outstanding c)")
    case False
    with assms Settled show ?thesis by simp
  next
    case True
    define c' where "c' = c\<lparr>outstanding := take k (outstanding c) @ drop (Suc k) (outstanding c)\<rparr>"
    define bs where "bs = enqueued c ev"
    obtain d where st: "step c ev = flush n d" and f: "sink d = sink c @ bs"
      "sock_written d = sock_written c" "sock_end_calls d = sock_end_calls c"
    proof (cases oc)
      case (Resolved t)
      show ?thesis
        by (rule that [of "c'\<lparr>closing := closing c' \<or> ConnectionClose_test (post_process t),
                history := history c' @ [\<lparr>role = Assistant, content = post_process t\<rparr>],
                sink := sink c' @ TextEncoder_encode (post_process t)\<rparr>"])
          (use True Settled Resolved in
            \<open>simp_all add: handleRequest_settle_Resolved c'_def bs_def\<close>)
    next
      case (Rejected e)
      show ?thesis
        by (rule that [of "c'\<lparr>closing := True,
                sink := sink c' @ TextEncoder_encode (error_response (error_message e))\<rparr>"])
          (use True Settled Rejected in
            \<open>simp_all add: handleRequest_settle_Rejected c'_def bs_def\<close>)
    qed
    from assms have "sock_end_calls (flush n d) \<noteq> sock_end_calls d"
      by (simp add: st f)
    from flush_end [OF this]
    have "sink d = []" "closing d" "sink (flush n d) = []"
      "sock_written (flush n d) = sock_written d"
      by simp_all
    then show ?thesis
      using f by (simp add: st bs_def)
  qed
qed

section \<open>Equations for evaluating the functions on concrete inputs\<close>

lemma ContentLength_here_eval:
  "ContentLength_here s =
     (case match_literal (js ''Content-Length:'') s of
        None \<Rightarrow> None
      | Some r \<Rightarrow>
          (if takeWhile is_digit (dropWhile is_space r) = [] then None
           else Some (takeWhile is_digit (dropWhile is_space r),
                      dropWhile is_digit (dropWhile is_space r))))"
  by (simp add: ContentLength_here_def Let_def split: option.splits)

lemma safeContentLength_eval:
  "safeContentLength headers body =
     (case ContentLength_search headers of
        Some (before, ds, after) \<Rightarrow>
          before @ js ''Content-Length: '' @ number_digits (length (TextEncoder_encode body)) @ after
      | None \<Rightarrow> headers @ CRLF @ js ''Content-Length: '' @
          number_digits (length (TextEncoder_encode body)))"
  by (simp add: safeContentLength_def Let_def)

lemma post_process_eval:
  "post_process out =
     (case indexOf CRLFCRLF out of
        None \<Rightarrow> out
      | Some i \<Rightarrow> safeContentLength (take i out) (drop (i + 4) out) @ CRLFCRLF @ drop (i + 4) out)"
  by (simp add: post_process_def Let_def split: option.splits)

lemma handleRequest_call_eval:
  "handleRequest_call reqBytes c =
     c\<lparr>requests := requests c @ [reqBytes],
       history := history c @ [\<lparr>role = User, content = TextDecoder_decode reqBytes\<rparr>],
       outstanding := outstanding c @
         [history c @ [\<lparr>role = User, content = TextDecoder_decode reqBytes\<rparr>]]\<rparr>"
  by (simp add: handleRequest_call_def Let_def)

lemma onData_loop_eval:
  "onData_loop c =
     (case splitHttp (buffer c) of
        None \<Rightarrow> c
      | Some (hdrs, rest) \<Rightarrow>
          if length rest < bodyLen_of hdrs then c
          else onData_loop
            (handleRequest_call
              (TextEncoder_encode (take (length hdrs + 4 + bodyLen_of hdrs) (buffer c)))
              (c\<lparr>buffer := drop (length hdrs + 4 + bodyLen_of hdrs) (buffer c)\<rparr>)))"
  by (subst onData_loop.simps) (simp add: Let_def split: option.splits)

lemma flush_eval:
  "flush n c =
     (if sink c = [] then
        (if closing c then c\<lparr>sink := [], sock_end_calls := sock_end_calls c + 1\<rparr>
         else c\<lparr>sink := []\<rparr>)
      else c\<lparr>sink := [], sock_written := sock_written c @ take (nat n) (sink c)\<rparr>)"
  by (simp add: flush_def Let_def less_than_def chunk_length_def)

lemmas text_eval = js_def ascii_def CRLF_def CRLFCRLF_def TextDecoder_decode_def strip_bom_def
  utf16_units_def TextEncoder_encode_def utf8_bytes_def is_lead_def is_trail_def

lemmas regex_eval = ContentLength_here_eval ConnectionClose_here_def Canonicalize_def
  is_space_def is_digit_def

lemmas conn_eval = new_Connection_def onData_def onData_loop_eval handleRequest_call_eval
  splitHttp_def bodyLen_of_def Number_def run_def onDrain_def flush_eval subarray_def 
  handleRequest_settle_Resolved handleRequest_settle_Rejected
  error_message_def error_response_def post_process_eval
  safeContentLength_eval number_digits.simps digit_unit_def

lemma run_failure_partial_write:
  "run [Data GET_ping, Settled 0 (Rejected (Error_instance (js ''boom''))) 10]
    = new_Connection\<lparr>history := [\<lparr>role = User, content = TextDecoder_decode GET_ping\<rparr>],
        closing := True, sock_written := ascii ''HTTP/1.1 5'', requests := [GET_ping]\<rparr>"
  by (simp add: GET_ping_def text_eval regex_eval conn_eval)

section \<open>Responder failure\<close>


text \<open>
  C10. For every value the responder call throws, the response that the \<open>catch\<close> block
  appends to the sink, and that a complete write hands to the socket, declares in its
  \<open>Content-Length\<close> header the \<open>length\<close> of the message, a number of UTF-16 code units
  (the message is that of the thrown \<open>Error\<close>, or the fixed text for any other value),
  while its body is the UTF-8 encoding of the message: the declared length is strictly
  smaller than the number of body bytes as soon as the message has a code unit outside
  ASCII, and equal to it when the message is all ASCII.
\<close>

theorem error_response_length_in_code_units:
  "handleRequest_settle (Rejected e) n c =
     flush n (c\<lparr>closing := True,
                sink := sink c @ TextEncoder_encode (error_response (error_message e))\<rparr>)
   \<and> (int (length (sink c @ TextEncoder_encode (error_response (error_message e)))) \<le> n \<longrightarrow>
        sock_written (handleRequest_settle (Rejected e) n c)
          = sock_written c @ sink c @ TextEncoder_encode (error_response (error_message e)))
   \<and> error_message (Error_instance msg) = msg
   \<and> error_message Other_value = js ''LLM proxy error''
   \<and> splitHttp (error_response (error_message e))
       = Some (error_headers (error_message e), error_message e)
   \<and> bodyLen_of (error_headers (error_message e)) = length (error_message e)
   \<and> TextEncoder_encode (error_response (error_message e)) =
       map ucast (error_headers (error_message e) @ CRLFCRLF)
       @ TextEncoder_encode (error_message e)
   \<and> ((\<exists>u \<in> set (error_message e). 0x80 \<le> u) \<longrightarrow>
        length (error_message e) < length (TextEncoder_encode (error_message e)))
   \<and> (\<not> (\<exists>u \<in> set (error_message e). 0x80 \<le> u) \<longrightarrow>
        length (TextEncoder_encode (error_message e)) = length (error_message e))"
proof -
  let ?m = "error_message e"
  have enc: "TextEncoder_encode (error_response ?m) =
      map ucast (error_headers ?m @ CRLFCRLF) @ TextEncoder_encode ?m"
    using encode_ascii_append [OF error_headers_ascii, of ?m ?m]
    by (simp add: error_response_split)
  have ascii: "\<not> (\<exists>u \<in> set ?m. 0x80 \<le> u) \<longrightarrow> length (TextEncoder_encode ?m) = length ?m"
    by (simp add: encode_ascii not_le)
  have sent: "sock_written (handleRequest_settle (Rejected e) n c)
      = sock_written c @ sink c @ TextEncoder_encode (error_response ?m)"
    if "int (length (sink c @ TextEncoder_encode (error_response ?m))) \<le> n"
    using that by (simp add: handleRequest_settle_Rejected sock_written_flush)
  show ?thesis
    using enc ascii sent length_less_encode [of ?m]
    by (simp add: handleRequest_settle_Rejected bodyLen_of_error_headers
        splitHttp_error_response error_message_def)
qed

theorem error_response_length_in_code_units_witness:
  "int (length (sink new_Connection @ TextEncoder_encode (error_response [0xE9]))) \<le> 1000
   \<and> sock_written (handleRequest_settle (Rejected (Error_instance [0xE9])) 1000 new_Connection)
       = TextEncoder_encode (error_response [0xE9])
   \<and> error_message (Error_instance [0xE9]) = [0xE9]
   \<and> (\<exists>u \<in> set [0xE9 :: unit16]. 0x80 \<le> u)
   \<and> bodyLen_of (error_headers [0xE9]) = 1
   \<and> length [0xE9 :: unit16] < length (TextEncoder_encode [0xE9])
   \<and> \<not> (\<exists>u \<in> set (js ''boom''). 0x80 \<le> u)
   \<and> bodyLen_of (error_headers (js ''boom'')) = 4
   \<and> length (TextEncoder_encode (js ''boom'')) = 4"
proof -
  have m: "error_message (Error_instance [0xE9]) = [0xE9]"
    "error_message (Error_instance (js ''boom'')) = js ''boom''"
    by (simp_all add: error_message_def)
  note t1 = error_response_length_in_code_units
    [of "Error_instance [0xE9]" 1000 new_Connection "[0xE9]", unfolded m]
  note t2 = error_response_length_in_code_units
    [of "Error_instance (js ''boom'')" 1000 new_Connection "js ''boom''", unfolded m]
  have l: "int (length (sink new_Connection @ TextEncoder_encode (error_response [0xE9]))) \<le> 1000"
    by (simp add: new_Connection_def error_response_def number_digits.simps digit_unit_def
        text_eval)
  have ex: "\<exists>u \<in> set [0xE9 :: unit16]. 0x80 \<le> u" by simp
  have nex: "\<not> (\<exists>u \<in> set (js ''boom''). 0x80 \<le> u)" by (simp add: js_def)
  from t1 l have "sock_written (handleRequest_settle (Rejected (Error_instance [0xE9])) 1000
      new_Connection)
      = sock_written new_Connection @ sink new_Connection
        @ TextEncoder_encode (error_response [0xE9])"
    by blast
  then have sent: "sock_written (handleRequest_settle (Rejected (Error_instance [0xE9])) 1000
      new_Connection) = TextEncoder_encode (error_response [0xE9])"
    by (simp add: new_Connection_def)
  from t1 have b1: "bodyLen_of (error_headers [0xE9]) = length [0xE9 :: unit16]" by blast
  from t1 ex have s1: "length [0xE9 :: unit16] < length (TextEncoder_encode [0xE9])" by blast
  from t2 have b2: "bodyLen_of (error_headers (js ''boom'')) = length (js ''boom'')" by blast
  from t2 nex have s2: "length (TextEncoder_encode (js ''boom'')) = length (js ''boom'')" by blast
  have len: "length (js ''boom'') = 4" by (simp add: js_def)
  show ?thesis
    using l sent m(1) ex b1 s1 nex b2 s2 len by simp
qed

section \<open>Writing with back-pressure\<close>

text \<open>
  C5. \<open>sock.end()\<close> is called only by a \<open>flush\<close> that finds the sink empty, but an
  empty sink does not mean that what was queued has been sent. \<open>flush\<close> takes the whole
  sink and hands it to \<open>sock.write\<close>; the remainder of a partial write is put back only
  if \<open>n < chunk.length\<close>, which is never true of the \<open>ArrayBuffer\<close> it is tested on.
  After a failed request whose response of 121 bytes the socket accepts 10 bytes of, the
  sink is empty, and the next drain ends the socket: 111 bytes of the response are
  dropped.
\<close>

theorem socket_ended_with_bytes_unsent:
  "length (TextEncoder_encode (error_response (js ''boom''))) = 121
   \<and> sock_written (run [Data GET_ping, Settled 0 (Rejected (Error_instance (js ''boom''))) 10])
       = ascii ''HTTP/1.1 5''
   \<and> sink (run [Data GET_ping, Settled 0 (Rejected (Error_instance (js ''boom''))) 10]) = []
   \<and> sock_end_calls
        (run [Data GET_ping, Settled 0 (Rejected (Error_instance (js ''boom''))) 10, Drain 0]) = 1
   \<and> sock_written
        (run [Data GET_ping, Settled 0 (Rejected (Error_instance (js ''boom''))) 10, Drain 0])
       = ascii ''HTTP/1.1 5''"
proof -
  have r: "run [Data GET_ping, Settled 0 (Rejected (Error_instance (js ''boom''))) 10, Drain 0]
      = onDrain 0 (run [Data GET_ping, Settled 0 (Rejected (Error_instance (js ''boom''))) 10])"
    by (simp add: run_def)
  have l: "length (TextEncoder_encode (error_response (js ''boom''))) = 121"
    by (simp add: error_response_def number_digits.simps digit_unit_def text_eval)
  show ?thesis
    unfolding r run_failure_partial_write
    using l by (simp add: new_Connection_def onDrain_def flush_eval)
qed

text \<open>
  C6. Four bytes are queued and the write accepts the first two: the two bytes are handed
  to the socket and the sink is left empty, so the drain that follows has nothing to
  write and the last two bytes never reach the socket.
\<close>

theorem partial_write_loses_remainder:
  "sock_written (flush 2 (new_Connection\<lparr>sink := ascii ''pong''\<rparr>)) = ascii ''po''
   \<and> sink (flush 2 (new_Connection\<lparr>sink := ascii ''pong''\<rparr>)) = []
   \<and> sock_written (onDrain 2 (flush 2 (new_Connection\<lparr>sink := ascii ''pong''\<rparr>))) = ascii ''po''
   \<and> sink (onDrain 2 (flush 2 (new_Connection\<lparr>sink := ascii ''pong''\<rparr>))) = []"
  by (simp add: new_Connection_def onDrain_def sock_written_flush ascii_def)

section \<open>The close directive\<close>

lemma starts_with_take: "starts_with p s \<longleftrightarrow> take (length p) s = p"
  by (induction p s rule: starts_with.induct) auto

lemma indexOf_Some:
  "indexOf pat s = Some i \<Longrightarrow> take (length pat) (drop i s) = pat \<and> i + length pat \<le> length s"
proof (induction s arbitrary: i)
  case Nil
  then show ?case by (simp split: if_splits)
next
  case (Cons c cs)
  show ?case
  proof (cases "starts_with pat (c # cs)")
    case True
    with Cons.prems have "i = 0" by simp
    with True show ?thesis
      using starts_with_take [of pat "c # cs"]
      by (metis add_0 drop0 length_take min.absorb_iff2 nat_le_linear take_all)
  next
    case False
    with Cons.prems obtain j where j: "indexOf pat cs = Some j" "i = Suc j" by auto
    from Cons.IH [OF j(1)] show ?thesis by (simp add: j(2))
  qed
qed

lemma splitHttp_Some:
  assumes "splitHttp s = Some (h, b)"
  shows "s = h @ CRLFCRLF @ b"
proof -
  from assms obtain i where i: "indexOf CRLFCRLF s = Some i" "h = take i s" "b = drop (i + 4) s"
    by (auto simp: splitHttp_def split: option.splits)
  have "length CRLFCRLF = 4" by (simp add: CRLFCRLF_def)
  with indexOf_Some [OF i(1)] have "take 4 (drop i s) = CRLFCRLF"
    by simp
  then have "CRLFCRLF @ b = drop i s"
    using i(3) by (metis add.commute append_take_drop_id drop_drop)
  then show ?thesis using i(2) by simp
qed

lemma match_literal_append:
  "match_literal p s = Some r \<Longrightarrow> match_literal p (s @ b) = Some (r @ b)"
  by (induction p s rule: match_literal.induct) (auto split: if_splits)

lemma match_literal_nonempty:
  "p \<noteq> [] \<Longrightarrow> match_literal p s \<noteq> None \<Longrightarrow> s \<noteq> []"
  by (cases p) auto

lemma ConnectionClose_here_append:
  assumes "ConnectionClose_here s"
  shows "ConnectionClose_here (s @ b)"
proof -
  from assms obtain r where r: "match_literal (js ''Connection:'') s = Some r"
    and cl: "match_literal (js ''close'') (dropWhile is_space r) \<noteq> None"
    by (auto simp: ConnectionClose_here_def split: option.splits)
  have "dropWhile is_space r \<noteq> []"
    using match_literal_nonempty [OF _ cl] by (simp add: js_def)
  then have "dropWhile is_space (r @ b) = dropWhile is_space r @ b"
    by (metis dropWhile_append1 dropWhile_eq_Nil_conv)
  moreover from cl obtain q where "match_literal (js ''close'') (dropWhile is_space r) = Some q"
    by auto
  ultimately have "match_literal (js ''close'') (dropWhile is_space (r @ b)) \<noteq> None"
    by (simp add: match_literal_append)
  then show ?thesis
    by (simp add: ConnectionClose_here_def match_literal_append [OF r])
qed

lemma ConnectionClose_test_prefix:
  "ConnectionClose_test a \<Longrightarrow> ConnectionClose_test (a @ b)"
proof (induction a)
  case Nil
  then show ?case by (simp add: ConnectionClose_here_def js_def)
next
  case (Cons c a)
  then show ?case
    using ConnectionClose_here_append [of "c # a" b] by auto
qed

lemma ConnectionClose_test_suffix:
  "ConnectionClose_test b \<Longrightarrow> ConnectionClose_test (a @ b)"
  by (induction a) auto

text \<open>
  C4, as amended. After the post-processing of a responder text, \<open>closing\<close> is set if and
  only if it was set before or the pattern \<open>Connection:\s*close\<close> matches, ignoring case,
  somewhere in the whole processed text; a match in the header block sets it, and so does
  a match that occurs only in the body.
\<close>

theorem close_intent_from_whole_text:
  "closing (handleRequest_settle (Resolved t) n c)
     = (closing c \<or> ConnectionClose_test (post_process t))
   \<and> (splitHttp (post_process t) = Some (h, b) \<and> (ConnectionClose_test h \<or> ConnectionClose_test b)
      \<longrightarrow> closing (handleRequest_settle (Resolved t) n c))"
proof -
  have "ConnectionClose_test (post_process t)"
    if "splitHttp (post_process t) = Some (h, b)" "ConnectionClose_test h \<or> ConnectionClose_test b"
  proof -
    from splitHttp_Some [OF that(1)] have eq: "post_process t = h @ CRLFCRLF @ b" .
    from that(2) show ?thesis
      unfolding eq
      using ConnectionClose_test_prefix [of h "CRLFCRLF @ b"]
        ConnectionClose_test_suffix [of b "h @ CRLFCRLF"]
      by auto
  qed
  then show ?thesis
    by (auto simp: handleRequest_settle_Resolved)
qed

theorem close_intent_from_whole_text_witness:
  "splitHttp (post_process OK_body_mentions_close)
     = Some (js ''HTTP/1.1 200 OK'' @ CRLF @ js ''Content-Length: 17'', js ''Connection: close'')
   \<and> ConnectionClose_test (js ''Connection: close'')
   \<and> closing (handleRequest_settle (Resolved OK_body_mentions_close) 0 new_Connection)"
proof -
  have pp: "post_process OK_body_mentions_close
      = js ''HTTP/1.1 200 OK'' @ CRLF @ js ''Content-Length: 17'' @ CRLFCRLF @ js ''Connection: close''"
    by (simp add: OK_body_mentions_close_def text_eval regex_eval conn_eval)
  have sp: "splitHttp (post_process OK_body_mentions_close)
     = Some (js ''HTTP/1.1 200 OK'' @ CRLF @ js ''Content-Length: 17'', js ''Connection: close'')"
    unfolding pp by (simp add: text_eval conn_eval)
  have cc: "ConnectionClose_test (js ''Connection: close'')"
    by (simp add: text_eval regex_eval)
  show ?thesis
    using close_intent_from_whole_text [of OK_body_mentions_close 0 new_Connection
        "js ''HTTP/1.1 200 OK'' @ CRLF @ js ''Content-Length: 17''" "js ''Connection: close''"]
      sp cc
    by blast
qed

text \<open>
  The claim C4 as stated lets only the header block decide. For a responder text whose
  header block has no such directive and whose body is the text \<open>Connection: close\<close>,
  \<open>closing\<close> is set all the same.
\<close>

theorem close_intent_body_only_counterexample:
  "splitHttp (post_process OK_body_mentions_close)
     = Some (js ''HTTP/1.1 200 OK'' @ CRLF @ js ''Content-Length: 17'', js ''Connection: close'')
   \<and> \<not> ConnectionClose_test (js ''HTTP/1.1 200 OK'' @ CRLF @ js ''Content-Length: 17'')
   \<and> \<not> closing new_Connection
   \<and> closing (handleRequest_settle (Resolved OK_body_mentions_close) 0 new_Connection)"
proof -
  have pp: "post_process OK_body_mentions_close
      = js ''HTTP/1.1 200 OK'' @ CRLF @ js ''Content-Length: 17'' @ CRLFCRLF @ js ''Connection: close''"
    by (simp add: OK_body_mentions_close_def text_eval regex_eval conn_eval)
  have sp: "splitHttp (post_process OK_body_mentions_close)
     = Some (js ''HTTP/1.1 200 OK'' @ CRLF @ js ''Content-Length: 17'', js ''Connection: close'')"
    unfolding pp by (simp add: text_eval conn_eval)
  have nh: "\<not> ConnectionClose_test (js ''HTTP/1.1 200 OK'' @ CRLF @ js ''Content-Length: 17'')"
    by (simp add: text_eval regex_eval)
  have cl: "closing (handleRequest_settle (Resolved OK_body_mentions_close) 0 new_Connection)"
    unfolding handleRequest_settle_Resolved closing_flush pp
    by (simp add: text_eval regex_eval)
  show ?thesis using sp nh cl by (simp add: new_Connection_def)
qed

section \<open>The length header of a response\<close>

text \<open>
  The two examples of the specification: a \<open>Content-Length: 999\<close> over the body
  \<open>pong\<close> is rewritten to 4, and a header block without the header gets one.
\<close>

lemma safeContentLength_examples:
  "post_process (js ''HTTP/1.1 200 OK'' @ CRLF @ js ''Content-Length: 999'' @ CRLFCRLF @ js ''pong'')
     = js ''HTTP/1.1 200 OK'' @ CRLF @ js ''Content-Length: 4'' @ CRLFCRLF @ js ''pong''"
  "post_process (js ''HTTP/1.1 200 OK'' @ CRLF @ js ''Content-Type: text/plain'' @ CRLFCRLF @ js ''pong'')
     = js ''HTTP/1.1 200 OK'' @ CRLF @ js ''Content-Type: text/plain'' @ CRLF @
       js ''Content-Length: 4'' @ CRLFCRLF @ js ''pong''"
  by (simp_all add: text_eval regex_eval conn_eval)

text \<open>
  C3. The pattern is replaced once, at its leftmost match. A responder text with two
  \<open>Content-Length\<close> headers keeps the second as the responder wrote it: over the
  four-byte body \<open>pong\<close> the text that is sent still carries \<open>Content-Length: 999\<close>.
\<close>

theorem second_length_header_kept:
  "post_process OK_two_lengths =
     js ''HTTP/1.1 200 OK'' @ CRLF @ js ''Content-Length: 4'' @ CRLF @
     js ''Content-Length: 999'' @ CRLFCRLF @ js ''pong''
   \<and> length (TextEncoder_encode (js ''pong'')) = 4"
  by (simp add: OK_two_lengths_def text_eval regex_eval conn_eval)

section \<open>Framing requests\<close>

text \<open>
  C7. \<open>onData\<close> compares the declared length with \<open>rest.length\<close>, a number of UTF-16
  code units, and cuts the message with \<open>slice\<close>, again in code units. A request that
  declares \<open>Content-Length: 2\<close> and carries the two bytes of \<open>U+00E9\<close> is not framed
  when it has arrived completely; when one more byte follows, the message that is framed
  has a body of three bytes.
\<close>

theorem body_measured_in_code_units:
  "requests (onData POST_cafe new_Connection) = []
   \<and> requests (onData (POST_cafe @ ascii ''G'') new_Connection) = [POST_cafe @ ascii ''G'']
   \<and> buffer (onData (POST_cafe @ ascii ''G'') new_Connection) = []"
  by (simp add: POST_cafe_def text_eval regex_eval conn_eval)

text \<open>
  C8. The same request followed in one chunk by a second complete request: two messages
  are framed and the buffer is left empty, but the first message has taken the first byte
  of the second request and the second message lacks it.
\<close>

theorem pipelined_pair_misframed:
  "requests (onData (POST_cafe @ GET_ping) new_Connection)
     = [POST_cafe @ ascii ''G'', drop 1 GET_ping]
   \<and> buffer (onData (POST_cafe @ GET_ping) new_Connection) = []"
  by (simp add: POST_cafe_def GET_ping_def text_eval regex_eval conn_eval)

text \<open>
  C2. Each chunk is decoded by a fresh \<open>TextDecoder\<close>. One request fed as a whole is
  framed as it was sent; fed in two chunks that separate the two bytes of \<open>U+00E9\<close>, it
  is framed with two replacement characters in their place.
\<close>

theorem split_character_changes_message:
  "requests (onData (GET_name_head @ GET_name_tail) new_Connection)
     = [GET_name_head @ GET_name_tail]
   \<and> requests (onData GET_name_tail (onData GET_name_head new_Connection))
     = [ascii ''GET /ping HTTP/1.1'' @ [0x0D, 0x0A] @ ascii ''X-Name: '' @
        [0xEF, 0xBF, 0xBD, 0xEF, 0xBF, 0xBD, 0x0D, 0x0A, 0x0D, 0x0A]]"
  by (simp add: GET_name_head_def GET_name_tail_def text_eval regex_eval conn_eval)

section \<open>Responder calls and their order\<close>

lemma issued_inputs_Nil [simp]: "issued_inputs hist [] = []"
  by (simp add: issued_inputs_def)

lemma issued_inputs_Cons:
  "issued_inputs hist (m # ms) = (hist @ [user_turn m]) # issued_inputs (hist @ [user_turn m]) ms"
proof -
  have "[0..<length (m # ms)] = 0 # map Suc [0..<length ms]"
    by (simp add: upt_conv_Cons map_Suc_upt del: upt_Suc)
  then show ?thesis
    by (simp add: issued_inputs_def comp_def del: upt_Suc)
qed

lemma handleRequest_call_record:
  "requests (handleRequest_call m c) = requests c @ [m]"
  "history (handleRequest_call m c) = history c @ [user_turn m]"
  "outstanding (handleRequest_call m c) = outstanding c @ [history c @ [user_turn m]]"
  by (simp_all add: handleRequest_call_eval user_turn_def)

lemma onData_loop_calls:
  "\<exists>ms. requests (onData_loop c) = requests c @ ms
      \<and> history (onData_loop c) = history c @ map user_turn ms
      \<and> outstanding (onData_loop c) = outstanding c @ issued_inputs (history c) ms"
proof (induction c rule: onData_loop.induct)
  case (1 c)
  show ?case
  proof (cases "splitHttp (buffer c)")
    case None
    then have "onData_loop c = c" by (subst onData_loop_eval) simp
    then show ?thesis by simp
  next
    case (Some hr)
    obtain hdrs rest where hr: "hr = (hdrs, rest)" by (cases hr)
    show ?thesis
    proof (cases "length rest < bodyLen_of hdrs")
      case True
      then have "onData_loop c = c" using Some hr by (subst onData_loop_eval) simp
      then show ?thesis by simp
    next
      case False
      define m where "m = TextEncoder_encode (take (length hdrs + 4 + bodyLen_of hdrs) (buffer c))"
      define c1 where "c1 = handleRequest_call m
          (c\<lparr>buffer := drop (length hdrs + 4 + bodyLen_of hdrs) (buffer c)\<rparr>)"
      have eq: "onData_loop c = onData_loop c1"
        using False Some hr by (subst onData_loop_eval) (simp add: c1_def m_def)
      from "1.IH" [OF Some hr [symmetric] refl False refl refl]
      obtain ms where ms: "requests (onData_loop c1) = requests c1 @ ms"
        "history (onData_loop c1) = history c1 @ map user_turn ms"
        "outstanding (onData_loop c1) = outstanding c1 @ issued_inputs (history c1) ms"
        unfolding c1_def m_def by blast
      have f: "requests c1 = requests c @ [m]" "history c1 = history c @ [user_turn m]"
        "outstanding c1 = outstanding c @ [history c @ [user_turn m]]"
        by (simp_all add: c1_def handleRequest_call_record)
      have "requests (onData_loop c) = requests c @ (m # ms)
          \<and> history (onData_loop c) = history c @ map user_turn (m # ms)
          \<and> outstanding (onData_loop c) = outstanding c @ issued_inputs (history c) (m # ms)"
        by (simp add: eq ms f issued_inputs_Cons)
      then show ?thesis by blast
    qed
  qed
qed

lemma onData_calls:
  "\<exists>ms. requests (onData chunk c) = requests c @ ms
      \<and> history (onData chunk c) = history c @ map user_turn ms
      \<and> outstanding (onData chunk c) = outstanding c @ issued_inputs (history c) ms"
  using onData_loop_calls [of "c\<lparr>buffer := buffer c @ TextDecoder_decode chunk\<rparr>"]
  by (simp add: onData_def)

lemma outstanding_settle:
  "outstanding (handleRequest_settle oc n c) = outstanding c"
  by (cases oc) (simp_all add: handleRequest_settle_Resolved handleRequest_settle_Rejected)

text \<open>
  C1, as amended. \<open>onData\<close> calls \<open>handleRequest\<close> for every request it frames without
  awaiting it: the responder call of each framed request is issued inside the \<open>onData\<close>
  call that frames it, in arrival order, one call for each request, and \<open>onData\<close> itself
  puts nothing into the sink and writes nothing. The response of a call is appended to
  the sink, and \<open>flush\<close> called, when that call settles, whichever outstanding call it
  is; settling removes that call alone.
\<close>

theorem responder_calls_issued_at_framing:
  "(\<exists>ms. requests (onData chunk c) = requests c @ ms
      \<and> outstanding (onData chunk c) = outstanding c @ issued_inputs (history c) ms
      \<and> length (outstanding (onData chunk c)) = length (outstanding c) + length ms)
   \<and> sink (onData chunk c) = sink c
   \<and> sock_written (onData chunk c) = sock_written c
   \<and> (k < length (outstanding c) \<longrightarrow>
        outstanding (step c (Settled k oc n))
          = take k (outstanding c) @ drop (Suc k) (outstanding c)
        \<and> step c (Settled k (Resolved t) n)
          = flush n (c\<lparr>outstanding := take k (outstanding c) @ drop (Suc k) (outstanding c),
                closing := closing c \<or> ConnectionClose_test (post_process t),
                history := history c @ [\<lparr>role = Assistant, content = post_process t\<rparr>],
                sink := sink c @ enqueued c (Settled k (Resolved t) n)\<rparr>)
        \<and> step c (Settled k (Rejected e) n)
          = flush n (c\<lparr>outstanding := take k (outstanding c) @ drop (Suc k) (outstanding c),
                closing := True,
                sink := sink c @ enqueued c (Settled k (Rejected e) n)\<rparr>))"
proof -
  from onData_calls [of chunk c] obtain ms where
    ms: "requests (onData chunk c) = requests c @ ms"
    "outstanding (onData chunk c) = outstanding c @ issued_inputs (history c) ms"
    by blast
  have "length (outstanding (onData chunk c)) = length (outstanding c) + length ms"
    by (simp add: ms(2) issued_inputs_def)
  with ms have 1: "\<exists>ms. requests (onData chunk c) = requests c @ ms
      \<and> outstanding (onData chunk c) = outstanding c @ issued_inputs (history c) ms
      \<and> length (outstanding (onData chunk c)) = length (outstanding c) + length ms"
    by blast
  have 2: "step c (Settled k (Resolved t) n)
          = flush n (c\<lparr>outstanding := take k (outstanding c) @ drop (Suc k) (outstanding c),
                closing := closing c \<or> ConnectionClose_test (post_process t),
                history := history c @ [\<lparr>role = Assistant, content = post_process t\<rparr>],
                sink := sink c @ enqueued c (Settled k (Resolved t) n)\<rparr>)"
    "step c (Settled k (Rejected e) n)
          = flush n (c\<lparr>outstanding := take k (outstanding c) @ drop (Suc k) (outstanding c),
                closing := True,
                sink := sink c @ enqueued c (Settled k (Rejected e) n)\<rparr>)"
    if "k < length (outstanding c)"
    using that by (simp_all add: handleRequest_settle_Resolved handleRequest_settle_Rejected)
  have 3: "outstanding (step c (Settled k oc n))
          = take k (outstanding c) @ drop (Suc k) (outstanding c)" if "k < length (outstanding c)"
    using that by (simp add: outstanding_settle)
  show ?thesis
    using 1 2 3 onData_socket [of chunk c] by blast
qed

lemma run_two_requests:
  "run [Data (GET_a @ GET_b)] =
     new_Connection\<lparr>history := [user_turn GET_a, user_turn GET_b],
       outstanding := [[user_turn GET_a], [user_turn GET_a, user_turn GET_b]],
       requests := [GET_a, GET_b]\<rparr>"
  by (simp add: GET_a_def GET_b_def user_turn_def text_eval regex_eval conn_eval)

lemma post_process_OK_a:
  "post_process OK_a = js ''HTTP/1.1 200 OK'' @ CRLF @ js ''Content-Length: 1'' @ CRLFCRLF @ js ''a''"
  by (simp add: OK_a_def text_eval regex_eval conn_eval)

lemma post_process_OK_b:
  "post_process OK_b = js ''HTTP/1.1 200 OK'' @ CRLF @ js ''Content-Length: 1'' @ CRLFCRLF @ js ''b''"
  by (simp add: OK_b_def text_eval regex_eval conn_eval)

theorem responder_calls_issued_at_framing_witness:
  "(1::nat) < length (outstanding (run [Data (GET_a @ GET_b)]))
   \<and> requests (onData (GET_a @ GET_b) new_Connection) = [GET_a, GET_b]
   \<and> outstanding (onData (GET_a @ GET_b) new_Connection)
       = [[user_turn GET_a], [user_turn GET_a, user_turn GET_b]]
   \<and> sink (onData (GET_a @ GET_b) new_Connection) = []
   \<and> outstanding (step (run [Data (GET_a @ GET_b)]) (Settled 1 (Resolved OK_b) 1000))
       = [[user_turn GET_a]]
   \<and> sock_written (step (run [Data (GET_a @ GET_b)]) (Settled 1 (Resolved OK_b) 1000))
       = TextEncoder_encode (post_process OK_b)
   \<and> history (step (run [Data (GET_a @ GET_b)]) (Settled 1 (Resolved OK_b) 1000))
       = [user_turn GET_a, user_turn GET_b, \<lparr>role = Assistant, content = post_process OK_b\<rparr>]"
proof -
  let ?c = "run [Data (GET_a @ GET_b)]"
  let ?ev = "Settled 1 (Resolved OK_b) 1000"
  have o: "onData (GET_a @ GET_b) new_Connection = ?c"
    by (simp add: run_def)
  have k: "(1::nat) < length (outstanding ?c)"
    by (simp add: run_two_requests new_Connection_def)
  have len: "int (length (TextEncoder_encode (post_process OK_b))) \<le> 1000"
    unfolding post_process_OK_b by (simp add: text_eval)
  from responder_calls_issued_at_framing
    [of "GET_a @ GET_b" ?c 1 "Resolved OK_b" 1000 OK_b "Error_instance []"] k
  have t: "outstanding (step ?c ?ev) = take 1 (outstanding ?c) @ drop (Suc 1) (outstanding ?c)"
    and st: "step ?c ?ev
       = flush 1000 (?c\<lparr>outstanding := take 1 (outstanding ?c) @ drop (Suc 1) (outstanding ?c),
           closing := closing ?c \<or> ConnectionClose_test (post_process OK_b),
           history := history ?c @ [\<lparr>role = Assistant, content = post_process OK_b\<rparr>],
           sink := sink ?c @ enqueued ?c ?ev\<rparr>)"
    by blast+
  have "outstanding (step ?c ?ev) = [[user_turn GET_a]]"
    unfolding t by (simp add: run_two_requests new_Connection_def)
  moreover have "sock_written (step ?c ?ev) = TextEncoder_encode (post_process OK_b)"
    unfolding st using len
    by (simp add: sock_written_flush run_two_requests new_Connection_def)
  moreover have "history (step ?c ?ev)
      = [user_turn GET_a, user_turn GET_b, \<lparr>role = Assistant, content = post_process OK_b\<rparr>]"
    unfolding st by (simp add: run_two_requests new_Connection_def)
  moreover have "requests (onData (GET_a @ GET_b) new_Connection) = [GET_a, GET_b]
     \<and> outstanding (onData (GET_a @ GET_b) new_Connection)
       = [[user_turn GET_a], [user_turn GET_a, user_turn GET_b]]
     \<and> sink (onData (GET_a @ GET_b) new_Connection) = []"
    unfolding o by (simp add: run_two_requests new_Connection_def)
  ultimately show ?thesis using k by simp
qed

text \<open>
  The claim C1 as stated allows one outstanding call at a time and promises responses in
  arrival order. Two requests in one chunk give two outstanding calls while nothing has
  been enqueued, and when the second call settles first its response is written first.
\<close>

theorem two_responder_calls_outstanding_counterexample:
  "requests (run [Data (GET_a @ GET_b)]) = [GET_a, GET_b]
   \<and> length (outstanding (run [Data (GET_a @ GET_b)])) = 2
   \<and> sink (run [Data (GET_a @ GET_b)]) = []
   \<and> sock_written (run [Data (GET_a @ GET_b)]) = []
   \<and> sock_written (run [Data (GET_a @ GET_b), Settled 1 (Resolved OK_b) 1000,
         Settled 0 (Resolved OK_a) 1000])
       = TextEncoder_encode (post_process OK_b) @ TextEncoder_encode (post_process OK_a)"
proof -
  have r: "run [Data (GET_a @ GET_b), Settled 1 (Resolved OK_b) 1000,
         Settled 0 (Resolved OK_a) 1000]
      = step (step (run [Data (GET_a @ GET_b)]) (Settled 1 (Resolved OK_b) 1000))
          (Settled 0 (Resolved OK_a) 1000)"
    by (simp add: run_def)
  have na: "TextEncoder_encode (post_process OK_a) \<noteq> []"
    "int (length (TextEncoder_encode (post_process OK_a))) \<le> 1000"
    unfolding post_process_OK_a by (simp_all add: text_eval)
  have nb: "TextEncoder_encode (post_process OK_b) \<noteq> []"
    "int (length (TextEncoder_encode (post_process OK_b))) \<le> 1000"
    unfolding post_process_OK_b by (simp_all add: text_eval)
  show ?thesis
    unfolding r run_two_requests
    using na nb
    by (simp add: new_Connection_def handleRequest_settle_Resolved flush_eval)
qed

section \<open>Framing on text that decodes chunk by chunk\<close>

text \<open>
  What the framing loop does on the decoded text does not depend on how the text arrived:
  running the loop, appending more text and running it again gives the same connection
  as appending the text first. So two chunks are framed like their concatenation whenever
  decoding them one by one gives the same text as decoding them together, which is the
  case for ASCII bytes. In the same way two requests in one chunk are framed as two
  messages when the length each of them declares is the length of its body in code
  units, which for ASCII bytes is its length in bytes.
\<close>

lemma starts_with_append: "starts_with p s \<Longrightarrow> starts_with p (s @ x)"
  by (induction p s rule: starts_with.induct) auto

lemma starts_with_within:
  "length p \<le> length s \<Longrightarrow> starts_with p (s @ x) \<Longrightarrow> starts_with p s"
  by (simp add: starts_with_take)

lemma indexOf_append:
  "indexOf p s = Some i \<Longrightarrow> indexOf p (s @ x) = Some i"
proof (induction s arbitrary: i)
  case Nil
  then show ?case by (cases x) (simp_all split: if_splits)
next
  case (Cons c cs)
  show ?case
  proof (cases "starts_with p (c # cs)")
    case True
    with Cons.prems show ?thesis
      using starts_with_append [of p "c # cs" x] by simp
  next
    case False
    with Cons.prems obtain j where j: "indexOf p cs = Some j" "i = Suc j" by auto
    from indexOf_Some [OF j(1)] have "length p \<le> length (c # cs)" by simp
    with False have "\<not> starts_with p ((c # cs) @ x)"
      using starts_with_within [of p "c # cs" x] by blast
    with Cons.IH [OF j(1)] j(2) show ?thesis by simp
  qed
qed

lemma splitHttp_append:
  assumes "splitHttp s = Some (h, r)"
  shows "splitHttp (s @ x) = Some (h, r @ x)"
proof -
  from assms obtain i where i: "indexOf CRLFCRLF s = Some i" "h = take i s" "r = drop (i + 4) s"
    by (auto simp: splitHttp_def split: option.splits)
  from indexOf_Some [OF i(1)] have le: "i + 4 \<le> length s" by (simp add: CRLFCRLF_def)
  show ?thesis
    using indexOf_append [OF i(1), of x] i(2,3) le
    by (simp add: splitHttp_def)
qed

lemma handleRequest_call_buffer:
  "handleRequest_call m (c\<lparr>buffer := b\<rparr>) = (handleRequest_call m c)\<lparr>buffer := b\<rparr>"
  by (simp add: handleRequest_call_eval)

lemma onData_loop_append:
  "onData_loop ((onData_loop c)\<lparr>buffer := buffer (onData_loop c) @ x\<rparr>)
   = onData_loop (c\<lparr>buffer := buffer c @ x\<rparr>)"
proof (induction c rule: onData_loop.induct)
  case (1 c)
  show ?case
  proof (cases "splitHttp (buffer c)")
    case None
    then have "onData_loop c = c" by (subst onData_loop_eval) simp
    then show ?thesis by simp
  next
    case (Some hr)
    obtain hdrs rest where hr: "hr = (hdrs, rest)" by (cases hr)
    show ?thesis
    proof (cases "length rest < bodyLen_of hdrs")
      case True
      then have "onData_loop c = c" using Some hr by (subst onData_loop_eval) simp
      then show ?thesis by simp
    next
      case False
      define k where "k = length hdrs + 4 + bodyLen_of hdrs"
      define m where "m = TextEncoder_encode (take k (buffer c))"
      define c1 where "c1 = handleRequest_call m (c\<lparr>buffer := drop k (buffer c)\<rparr>)"
      have eq: "onData_loop c = onData_loop c1"
        using False Some hr by (subst onData_loop_eval) (simp add: c1_def m_def k_def)
      from splitHttp_Some [OF Some [unfolded hr]] False
      have le: "k \<le> length (buffer c)" by (simp add: k_def CRLFCRLF_def)
      have sp: "splitHttp (buffer c @ x) = Some (hdrs, rest @ x)"
        using splitHttp_append [OF Some [unfolded hr]] .
      have "onData_loop (c\<lparr>buffer := buffer c @ x\<rparr>)
          = onData_loop (handleRequest_call m (c\<lparr>buffer := drop k (buffer c) @ x\<rparr>))"
        using False sp le
        by (subst onData_loop_eval) (simp add: m_def k_def)
      also have "handleRequest_call m (c\<lparr>buffer := drop k (buffer c) @ x\<rparr>)
          = c1\<lparr>buffer := buffer c1 @ x\<rparr>"
        by (simp add: c1_def handleRequest_call_buffer)
      also have "onData_loop (c1\<lparr>buffer := buffer c1 @ x\<rparr>)
          = onData_loop ((onData_loop c1)\<lparr>buffer := buffer (onData_loop c1) @ x\<rparr>)"
        using "1.IH" [OF Some hr [symmetric] refl False refl refl]
        unfolding c1_def m_def k_def by simp
      finally show ?thesis by (simp add: eq)
    qed
  qed
qed

lemma onData_decoded_chunks:
  assumes "TextDecoder_decode (a @ b) = TextDecoder_decode a @ TextDecoder_decode b"
  shows "onData b (onData a c) = onData (a @ b) c"
  using onData_loop_append [of "c\<lparr>buffer := buffer c @ TextDecoder_decode a\<rparr>" "TextDecoder_decode b"]
  by (simp add: onData_def assms)

lemma utf8_decode_ascii:
  "\<forall>x \<in> set bs. x < 0x80 \<Longrightarrow> utf8_decode 0 0 0x80 0xBF bs = map unat bs"
  by (induction bs) (auto simp: word_le_nat_alt word_less_nat_alt)

lemma decode_ascii:
  assumes "\<forall>x \<in> set bs. x < 0x80"
  shows "TextDecoder_decode bs = map ucast bs"
proof -
  have "strip_bom bs = bs"
  proof (cases bs)
    case Nil
    then show ?thesis by (simp add: strip_bom_def)
  next
    case (Cons x xs)
    with assms have "x \<noteq> 0xEF" by auto
    with Cons show ?thesis by (auto simp: strip_bom_def)
  qed
  moreover have "utf16_units (unat x) = [ucast x]" for x :: byte
    using unsigned_less [of x, where ?'a = nat] by (simp add: utf16_units_def)
  then have "concat (map utf16_units (map unat bs)) = map ucast bs"
    by (induction bs) simp_all
  ultimately show ?thesis
    by (simp add: TextDecoder_decode_def utf8_decode_ascii [OF assms])
qed

lemma onData_chunks_ascii:
  assumes "\<forall>x \<in> set (a @ b). x < 0x80"
  shows "onData b (onData a c) = onData (a @ b) c"
proof -
  from assms have "\<forall>x \<in> set a. x < 0x80" "\<forall>x \<in> set b. x < 0x80" by auto
  then have "TextDecoder_decode (a @ b) = TextDecoder_decode a @ TextDecoder_decode b"
    using decode_ascii [OF assms] by (simp add: decode_ascii)
  then show ?thesis by (rule onData_decoded_chunks)
qed

lemma onData_many_chunks_ascii:
  assumes "chunks \<noteq> []" "\<forall>ch \<in> set chunks. \<forall>x \<in> set ch. x < 0x80"
  shows "foldl (\<lambda>c ch. onData ch c) c chunks = onData (concat chunks) c"
  using assms
proof (induction chunks rule: rev_nonempty_induct)
  case (single ch)
  show ?case by simp
next
  case (snoc ch chunks)
  then have "foldl (\<lambda>c ch. onData ch c) c chunks = onData (concat chunks) c" by simp
  moreover have "\<forall>x \<in> set (concat chunks @ ch). x < 0x80"
    using snoc.prems by auto
  ultimately show ?case
    by (simp add: onData_chunks_ascii)
qed

lemma buffer_handleRequest_call [simp]: "buffer (handleRequest_call m c) = buffer c"
  by (simp add: handleRequest_call_eval)

lemma onData_loop_waits:
  "splitHttp (buffer c) = None \<Longrightarrow> onData_loop c = c"
  "splitHttp (buffer c) = Some (hdrs, rest) \<Longrightarrow> length rest < bodyLen_of hdrs \<Longrightarrow>
   onData_loop c = c"
  by (subst onData_loop_eval, simp)+

lemma onData_loop_exact:
  assumes "splitHttp r = Some (h, b)" "length b = bodyLen_of h"
  shows "onData_loop (c\<lparr>buffer := r @ x\<rparr>)
         = onData_loop (handleRequest_call (TextEncoder_encode r) (c\<lparr>buffer := x\<rparr>))"
proof -
  from splitHttp_Some [OF assms(1)] have len: "length r = length h + 4 + bodyLen_of h"
    by (simp add: CRLFCRLF_def assms(2))
  have sp: "splitHttp (r @ x) = Some (h, b @ x)"
    using splitHttp_append [OF assms(1)] .
  show ?thesis
    using sp assms(2) len
    by (subst onData_loop_eval) simp
qed

lemma ucast_ascii_roundtrip: "map ucast (map ucast R :: jsstring) = (R :: byte list)"
  by (induction R) (simp_all add: ucast_down_ucast_id is_down)

lemma ucast_ascii: "x < 0x80 \<Longrightarrow> (ucast (x :: byte) :: unit16) < 0x80"
  using unsigned_less [of x, where ?'a = nat]
  by (simp add: word_less_nat_alt unsigned_ucast_eq take_bit_nat_eq_self)

lemma encode_decode_ascii:
  assumes "\<forall>x \<in> set R. x < 0x80"
  shows "TextEncoder_encode (TextDecoder_decode R) = R"
proof -
  have "\<forall>u \<in> set (map ucast R :: jsstring). u < 0x80"
    using assms by (auto simp: ucast_ascii)
  then show ?thesis
    by (simp add: decode_ascii [OF assms] encode_ascii ucast_ascii_roundtrip del: map_map)
qed

lemma pipelined_pair_ascii:
  assumes ascii: "\<forall>x \<in> set (R1 @ R2). x < 0x80"
    and r1: "splitHttp (TextDecoder_decode R1) = Some (h1, b1)" "length b1 = bodyLen_of h1"
    and r2: "splitHttp (TextDecoder_decode R2) = Some (h2, b2)" "length b2 = bodyLen_of h2"
    and empty: "buffer c = []"
  shows "requests (onData (R1 @ R2) c) = requests c @ [R1, R2]
         \<and> buffer (onData (R1 @ R2) c) = []"
proof -
  from ascii have a1: "\<forall>x \<in> set R1. x < 0x80" and a2: "\<forall>x \<in> set R2. x < 0x80" by auto
  have dec: "TextDecoder_decode (R1 @ R2) = TextDecoder_decode R1 @ TextDecoder_decode R2"
    by (simp add: decode_ascii [OF ascii] decode_ascii [OF a1] decode_ascii [OF a2])
  define c1 where "c1 = handleRequest_call R1 c"
  define c2 where "c2 = handleRequest_call R2 c1"
  have b: "buffer c1 = []" "buffer c2 = []" by (simp_all add: c1_def c2_def empty)
  have "onData (R1 @ R2) c
      = onData_loop (c\<lparr>buffer := TextDecoder_decode R1 @ TextDecoder_decode R2\<rparr>)"
    by (simp add: onData_def dec empty)
  also have "\<dots> = onData_loop (handleRequest_call R1 (c\<lparr>buffer := TextDecoder_decode R2\<rparr>))"
    using onData_loop_exact [OF r1] by (simp add: encode_decode_ascii [OF a1])
  also have "\<dots> = onData_loop (c1\<lparr>buffer := TextDecoder_decode R2 @ []\<rparr>)"
    by (simp add: c1_def handleRequest_call_buffer)
  also have "\<dots> = onData_loop (handleRequest_call R2 (c1\<lparr>buffer := []\<rparr>))"
    using onData_loop_exact [OF r2, where c = c1 and x = "[]"] by (simp add: encode_decode_ascii [OF a2])
  also have "c1\<lparr>buffer := []\<rparr> = c1"
    using b(1) by (cases c1) simp
  also have "onData_loop (handleRequest_call R2 c1) = onData_loop c2"
    by (simp add: c2_def)
  also have "\<dots> = c2"
    using b by (intro onData_loop_waits(1)) (simp add: splitHttp_def CRLFCRLF_def)
  finally have "onData (R1 @ R2) c = c2" .
  then show ?thesis
    by (simp add: c2_def c1_def handleRequest_call_record empty)
qed

end
